theory Spec2Isabelle
  imports Main
begin

section \<open>Strings of the program\<close>

text \<open>
  A Python \<^verbatim>\<open>str\<close> is a sequence of Unicode code points, so a character is a natural
  number (its code point) and a string is a list of them. \<open>py\<close> turns an ASCII literal
  of the source into such a string.
\<close>

type_synonym pychar = nat
type_synonym pystr = "pychar list"

definition py :: "string \<Rightarrow> pystr" where
  "py s = map of_char s"

text \<open>
  \<^verbatim>\<open>str.isdigit\<close> reads the interpreter's Unicode table (several hundred code points,
  among them superscript two), so the functions below take the table as a parameter.
  What is fixed of it is its ASCII part: below 128 exactly \<^verbatim>\<open>0\<close> .. \<^verbatim>\<open>9\<close> are digits.
  \<open>isdigit_ascii\<close> is the table of an interpreter that only ever sees ASCII input.
\<close>

definition ascii_digits :: "(pychar \<Rightarrow> bool) \<Rightarrow> bool" where
  "ascii_digits isdigit = (\<forall>c<128. isdigit c = (48 \<le> c \<and> c \<le> 57))"

definition isdigit_ascii :: "pychar \<Rightarrow> bool" where
  "isdigit_ascii c = (48 \<le> c \<and> c \<le> 57)"

definition startswith :: "pystr \<Rightarrow> pystr \<Rightarrow> bool" where
  "startswith s p = (take (length p) s = p)"

text \<open>
  \<^verbatim>\<open>str.zfill(width)\<close>: a string already \<open>width\<close> long is returned as it is; otherwise
  zeros are put on the left, after a leading sign (\<^verbatim>\<open>+\<close> is 43, \<^verbatim>\<open>-\<close> is 45) if there is one.
\<close>

definition zfill :: "pystr \<Rightarrow> nat \<Rightarrow> pystr" where
  "zfill s width =
     (if width \<le> length s then s
      else case s of
             [] \<Rightarrow> replicate width 48
           | c # cs \<Rightarrow>
               if c = 43 \<or> c = 45 then c # replicate (width - length s) 48 @ cs
               else replicate (width - length s) 48 @ s)"

section \<open>Phone normalizer\<close>

text \<open>
  \<^verbatim>\<open>normalize_phone_number\<close> of \<^verbatim>\<open>main.py\<close>, branch for branch. The slice
  \<^verbatim>\<open>digits_only[-10:]\<close> is only reached with more than 10 characters, where it drops all
  but the last 10.
\<close>

definition normalize_phone_number :: "(pychar \<Rightarrow> bool) \<Rightarrow> pystr \<Rightarrow> pystr" where
  "normalize_phone_number isdigit phone_number =
     (let digits_only = filter isdigit phone_number in
      if startswith digits_only (py ''91'') \<and> length digits_only > 10 then drop 2 digits_only
      else if length digits_only > 10 then drop (length digits_only - 10) digits_only
      else if length digits_only < 10 then zfill digits_only 10
      else digits_only)"

section \<open>Conversation tag normalizer\<close>

subsection \<open>The two regular expressions\<close>

text \<open>
  Both patterns are matched with \<^verbatim>\<open>re.match(pattern, line, re.IGNORECASE)\<close> on a
  \<^verbatim>\<open>str\<close>, so the character classes are the Unicode ones of the \<^verbatim>\<open>re\<close> module:
  \<^verbatim>\<open>\s\<close> is the whitespace set below, \<^verbatim>\<open>.\<close> is every character but the newline
  (code point 10), \<^verbatim>\<open>[^)]\<close> is every character but the closing parenthesis (41).
\<close>

definition isspace :: "pychar \<Rightarrow> bool" where
  "isspace c = (c \<in> {9, 10, 11, 12, 13, 28, 29, 30, 31, 32, 133, 160, 5760, 8232, 8233,
                      8239, 8287, 12288} \<or> (8192 \<le> c \<and> c \<le> 8202))"

text \<open>
  A literal of a pattern compiled with \<^verbatim>\<open>re.IGNORECASE\<close>: an ASCII letter matches its
  lower and its upper case and the few other code points whose case folding meets them
  (dotted capital I 304 and dotless i 305 for \<^verbatim>\<open>i\<close>, long s 383 for \<^verbatim>\<open>s\<close>, the Kelvin
  sign 8490 for \<^verbatim>\<open>k\<close>); any other literal matches only itself.
\<close>

definition ignorecase :: "char \<Rightarrow> pychar \<Rightarrow> bool" where
  "ignorecase p c =
     (let a = of_char p :: nat in
      if (65 \<le> a \<and> a \<le> 90) \<or> (97 \<le> a \<and> a \<le> 122) then
        (let lo = (if a \<le> 90 then a + 32 else a) in
         c = lo \<or> c = lo - 32 \<or> (lo = 105 \<and> (c = 304 \<or> c = 305))
         \<or> (lo = 115 \<and> c = 383) \<or> (lo = 107 \<and> c = 8490))
      else c = a)"

datatype atom = Lit char | Space | NotRParen | Dot

fun atom_matches :: "atom \<Rightarrow> pychar \<Rightarrow> bool" where
  "atom_matches (Lit p) c = ignorecase p c"
| "atom_matches Space c = isspace c"
| "atom_matches NotRParen c = (c \<noteq> 41)"
| "atom_matches Dot c = (c \<noteq> 10)"

text \<open>
  The fragment of regular expressions the two patterns use: single characters, the greedy
  star of a single character, sequence and ordered alternative.
\<close>

datatype rx = Eps | Atom atom | Star atom | Seq rx rx | Alt rx rx

text \<open>
  The backtracking matcher of \<^verbatim>\<open>re\<close>, with the rest of the match as a continuation
  \<open>k\<close>: a star takes as many characters as it can and gives them back one by one when
  the continuation fails; an alternative tries its left branch first and its right branch
  when the left one, followed by the continuation, fails.
\<close>

fun matchk :: "rx \<Rightarrow> pystr \<Rightarrow> (pystr \<Rightarrow> 'a option) \<Rightarrow> 'a option" where
  "matchk Eps s k = k s"
| "matchk (Atom a) [] k = None"
| "matchk (Atom a) (c # cs) k = (if atom_matches a c then k cs else None)"
| "matchk (Star a) [] k = k []"
| "matchk (Star a) (c # cs) k =
     (if atom_matches a c
      then (case matchk (Star a) cs k of Some r \<Rightarrow> Some r | None \<Rightarrow> k (c # cs))
      else k (c # cs))"
| "matchk (Seq r1 r2) s k = matchk r1 s (\<lambda>s'. matchk r2 s' k)"
| "matchk (Alt r1 r2) s k =
     (case matchk r1 s k of Some r \<Rightarrow> Some r | None \<Rightarrow> matchk r2 s k)"

fun lits :: "string \<Rightarrow> rx" where
  "lits [] = Eps"
| "lits (c # cs) = Seq (Atom (Lit c)) (lits cs)"

text \<open>
  Both patterns end in \<^verbatim>\<open>(.*)$\<close>: the group takes characters other than the newline,
  and \<^verbatim>\<open>$\<close> (without \<^verbatim>\<open>re.MULTILINE\<close>) holds at the end of the string or just before a
  newline that ends it. \<open>capture s\<close> is the text of group 1 when the group starts at \<open>s\<close>,
  and \<open>group1 prefix line\<close> is \<^verbatim>\<open>match.group(1)\<close> of the pattern
  \<^verbatim>\<open>^prefix(.*)$\<close>, or \<open>None\<close> when \<^verbatim>\<open>re.match\<close> returns \<^verbatim>\<open>None\<close>.
\<close>

definition at_end :: "pystr \<Rightarrow> bool" where
  "at_end s = (s = [] \<or> s = [10])"

definition capture :: "pystr \<Rightarrow> pystr option" where
  "capture s =
     matchk (Star Dot) s
       (\<lambda>rest. if at_end rest then Some (take (length s - length rest) s) else None)"

definition group1 :: "rx \<Rightarrow> pystr \<Rightarrow> pystr option" where
  "group1 prefix line = matchk prefix line capture"

text \<open>The piece \<^verbatim>\<open>\s*:\s*\<close> that both patterns share.\<close>

definition colon_rx :: rx where
  "colon_rx = Seq (Star Space) (Seq (lits '':'') (Star Space))"

text \<open>
  \<^verbatim>\<open>agent_pattern = r'^(?:Natalie\s*\(Agent\)|Agent\s*\([^)]*\)|Natalie|Agent)\s*:\s*(.*)$'\<close>
  and \<^verbatim>\<open>user_pattern = r'^User\s*:\s*(.*)$'\<close>, each without its final group.
\<close>

definition agent_pattern :: rx where
  "agent_pattern =
     Seq (Alt (Seq (lits ''Natalie'') (Seq (Star Space) (lits ''(Agent)'')))
         (Alt (Seq (lits ''Agent'') (Seq (Star Space)
                 (Seq (lits ''('') (Seq (Star NotRParen) (lits '')'')))))
         (Alt (lits ''Natalie'') (lits ''Agent''))))
       colon_rx"

definition user_pattern :: rx where
  "user_pattern = Seq (lits ''User'') colon_rx"

subsection \<open>The normalizer\<close>

text \<open>The body of the loop of \<^verbatim>\<open>normalize_conversation_tags\<close>, for one line.\<close>

definition normalize_line :: "pystr \<Rightarrow> pystr" where
  "normalize_line line =
     (case group1 agent_pattern line of
        Some g \<Rightarrow> py ''Agent: '' @ g
      | None \<Rightarrow>
          (case group1 user_pattern line of
             Some g \<Rightarrow> py ''User: '' @ g
           | None \<Rightarrow> line))"

text \<open>
  \<^verbatim>\<open>conversation.split('\n')\<close> (never an empty list) and \<^verbatim>\<open>'\n'.join(lines)\<close>.
\<close>

fun split_nl :: "pystr \<Rightarrow> pystr list" where
  "split_nl [] = [[]]"
| "split_nl (c # cs) =
     (if c = 10 then [] # split_nl cs
      else (case split_nl cs of [] \<Rightarrow> [[c]] | l # ls \<Rightarrow> (c # l) # ls))"

fun join_nl :: "pystr list \<Rightarrow> pystr" where
  "join_nl [] = []"
| "join_nl [l] = l"
| "join_nl (l # ls) = l @ 10 # join_nl ls"

text \<open>The loop over the lines, with the list \<^verbatim>\<open>normalized_lines\<close> it appends to.\<close>

fun tags_loop :: "pystr list \<Rightarrow> pystr list \<Rightarrow> pystr list" where
  "tags_loop [] normalized_lines = normalized_lines"
| "tags_loop (line # lines) normalized_lines =
     tags_loop lines (normalized_lines @ [normalize_line line])"

definition normalize_conversation_tags :: "pystr \<Rightarrow> pystr" where
  "normalize_conversation_tags conversation =
     join_nl (tags_loop (split_nl conversation) [])"

subsection \<open>The speaker tags in the words of the specification\<close>

text \<open>
  What the specification calls a line matching an agent pattern, written out as a shape
  of the line and independent of the matcher: a tag, optional whitespace, a colon and the
  rest. The tag is the display name with the role in parentheses, the role with anything
  but a closing parenthesis in parentheses, the display name alone, or the role alone;
  letters compare without case (\<open>ci\<close>). A user line has the tag \<^verbatim>\<open>User\<close>.
\<close>

definition ci :: "string \<Rightarrow> pystr \<Rightarrow> bool" where
  "ci p w = list_all2 ignorecase p w"

definition spaces :: "pystr \<Rightarrow> bool" where
  "spaces w = (\<forall>c\<in>set w. isspace c)"

definition agent_tag :: "pystr \<Rightarrow> bool" where
  "agent_tag t =
     ((\<exists>n ws a. t = n @ ws @ a \<and> ci ''Natalie'' n \<and> spaces ws \<and> ci ''(Agent)'' a)
      \<or> (\<exists>a ws inner. t = a @ ws @ 40 # inner @ [41] \<and> ci ''Agent'' a \<and> spaces ws
            \<and> 41 \<notin> set inner)
      \<or> ci ''Natalie'' t
      \<or> ci ''Agent'' t)"

definition agent_line :: "pystr \<Rightarrow> pystr \<Rightarrow> bool" where
  "agent_line l rest = (\<exists>tag ws. l = tag @ ws @ 58 # rest \<and> agent_tag tag \<and> spaces ws)"

definition user_line :: "pystr \<Rightarrow> pystr \<Rightarrow> bool" where
  "user_line l rest = (\<exists>tag ws. l = tag @ ws @ 58 # rest \<and> ci ''User'' tag \<and> spaces ws)"

subsection \<open>Deterministic readings of the patterns\<close>

text \<open>
  On a line without a newline the matcher never has to give a character back. The
  functions below read the same pieces from left to right without backtracking; they are
  proved equal to the matcher and serve only the proofs.
\<close>

definition strip_ci :: "string \<Rightarrow> pystr \<Rightarrow> pystr option" where
  "strip_ci p s =
     (if length p \<le> length s \<and> ci p (take (length p) s) then Some (drop (length p) s)
      else None)"

definition after_colon :: "pystr \<Rightarrow> pystr option" where
  "after_colon s =
     (case dropWhile isspace s of
        [] \<Rightarrow> None
      | c # rest \<Rightarrow> if c = 58 then Some (dropWhile isspace rest) else None)"

definition natalie_agent :: "pystr \<Rightarrow> pystr option" where
  "natalie_agent s =
     Option.bind (strip_ci ''Natalie'' s) (\<lambda>s. strip_ci ''(Agent)'' (dropWhile isspace s))"

definition agent_paren :: "pystr \<Rightarrow> pystr option" where
  "agent_paren s =
     Option.bind (strip_ci ''Agent'' s) (\<lambda>s.
       Option.bind (strip_ci ''('' (dropWhile isspace s)) (\<lambda>s.
         strip_ci '')'' (dropWhile (\<lambda>c. c \<noteq> 41) s)))"

definition agent_group :: "pystr \<Rightarrow> pystr option" where
  "agent_group l =
     (case Option.bind (natalie_agent l) after_colon of
        Some r \<Rightarrow> Some r
      | None \<Rightarrow>
     (case Option.bind (agent_paren l) after_colon of
        Some r \<Rightarrow> Some r
      | None \<Rightarrow>
     (case Option.bind (strip_ci ''Natalie'' l) after_colon of
        Some r \<Rightarrow> Some r
      | None \<Rightarrow> Option.bind (strip_ci ''Agent'' l) after_colon)))"

definition user_group :: "pystr \<Rightarrow> pystr option" where
  "user_group l = Option.bind (strip_ci ''User'' l) after_colon"

section \<open>Properties of the phone normalizer\<close>

lemma ascii_digitsD: "ascii_digits isdigit \<Longrightarrow> c < 128 \<Longrightarrow> isdigit c = (48 \<le> c \<and> c \<le> 57)"
  by (simp add: ascii_digits_def)

lemma ascii_digits_ascii: "ascii_digits isdigit_ascii"
  by (simp add: ascii_digits_def isdigit_ascii_def)

lemma zfill_digits:
  assumes "isdigit 48" and "\<forall>c\<in>set s. isdigit c"
  shows "\<forall>c\<in>set (zfill s w). isdigit c"
  using assms by (cases s) (auto simp: zfill_def)

lemma length_zfill: "length (zfill s w) = max w (length s)"
  by (cases s) (auto simp: zfill_def)

lemma zfill_no_sign:
  assumes "s = [] \<or> (hd s \<noteq> 43 \<and> hd s \<noteq> 45)"
  shows "zfill s w = replicate (w - length s) 48 @ s"
  using assms by (cases s) (auto simp: zfill_def)

lemma normalize_phone_number_branches:
  "normalize_phone_number isdigit x = drop 2 (filter isdigit x)
   \<or> normalize_phone_number isdigit x
       = drop (length (filter isdigit x) - 10) (filter isdigit x)
   \<or> normalize_phone_number isdigit x = zfill (filter isdigit x) 10
   \<or> normalize_phone_number isdigit x = filter isdigit x"
  unfolding normalize_phone_number_def Let_def by presburger

lemma normalize_phone_number_digits:
  assumes "isdigit 48" and "c \<in> set (normalize_phone_number isdigit x)"
  shows "isdigit c"
proof -
  have d: "\<forall>c\<in>set (filter isdigit x). isdigit c" by simp
  have z: "\<forall>c\<in>set (zfill (filter isdigit x) 10). isdigit c"
    using zfill_digits [OF assms(1) d] .
  have dr: "c \<in> set (drop n (filter isdigit x)) \<Longrightarrow> isdigit c" for n
    using d in_set_dropD by fast
  show ?thesis
    using normalize_phone_number_branches [of isdigit x] assms(2) z dr d by metis
qed

lemma normalize_phone_number_length:
  "length (normalize_phone_number isdigit x) =
     (if startswith (filter isdigit x) (py ''91'') \<and> length (filter isdigit x) > 10
      then length (filter isdigit x) - 2 else 10)"
  unfolding normalize_phone_number_def Let_def
  by (simp add: length_zfill)

lemma replicate_5: "replicate 5 x = [x, x, x, x, x]"
  by (simp add: numeral_eq_Suc)

text \<open>
  C3. The cases of the normalizer in their order, on the digit string \<open>d\<close> of the
  input: \<open>d\<close> starting with "91" and longer than 10 loses its first two characters (the
  last-10 rule is not applied); any other \<open>d\<close> longer than 10 keeps its last 10
  characters; \<open>d\<close> of exactly 10 characters is returned unchanged, also when it starts with
  "91"; \<open>d\<close> shorter than 10 gets zeros on the left up to width 10. The examples of
  the specification evaluate as it says.
\<close>

theorem normalize_phone_number_cases:
  assumes "ascii_digits isdigit"
  shows "(startswith (filter isdigit x) (py ''91'') \<and> length (filter isdigit x) > 10 \<longrightarrow>
            normalize_phone_number isdigit x = drop 2 (filter isdigit x))
       \<and> (\<not> startswith (filter isdigit x) (py ''91'') \<and> length (filter isdigit x) > 10 \<longrightarrow>
            normalize_phone_number isdigit x
              = drop (length (filter isdigit x) - 10) (filter isdigit x))
       \<and> (length (filter isdigit x) = 10 \<longrightarrow>
            normalize_phone_number isdigit x = filter isdigit x)
       \<and> (length (filter isdigit x) < 10 \<longrightarrow>
            normalize_phone_number isdigit x
              = replicate (10 - length (filter isdigit x)) 48 @ filter isdigit x)
       \<and> normalize_phone_number isdigit (py ''123456789012'') = py ''3456789012''
       \<and> normalize_phone_number isdigit (py ''12345'') = py ''0000012345''
       \<and> normalize_phone_number isdigit (py ''+91 98765 43210'') = py ''9876543210''"
proof -
  let ?d = "filter isdigit x"
  have nosign: "?d = [] \<or> (hd ?d \<noteq> 43 \<and> hd ?d \<noteq> 45)"
  proof (cases ?d)
    case Nil
    then show ?thesis by simp
  next
    case (Cons c cs)
    then have "c \<in> set ?d" by simp
    then have "isdigit c" by simp
    then have "c \<noteq> 43 \<and> c \<noteq> 45"
      using ascii_digitsD [OF assms, of 43] ascii_digitsD [OF assms, of 45] by auto
    with Cons show ?thesis by simp
  qed
  have c1: "startswith ?d (py ''91'') \<and> length ?d > 10 \<longrightarrow>
      normalize_phone_number isdigit x = drop 2 ?d"
    unfolding normalize_phone_number_def Let_def by presburger
  have c2: "\<not> startswith ?d (py ''91'') \<and> length ?d > 10 \<longrightarrow>
      normalize_phone_number isdigit x = drop (length ?d - 10) ?d"
    unfolding normalize_phone_number_def Let_def by presburger
  have c3: "length ?d = 10 \<longrightarrow> normalize_phone_number isdigit x = ?d"
    unfolding normalize_phone_number_def Let_def by simp
  have c4: "length ?d < 10 \<longrightarrow>
      normalize_phone_number isdigit x = replicate (10 - length ?d) 48 @ ?d"
    unfolding normalize_phone_number_def Let_def
    by (simp add: zfill_no_sign [OF nosign])
  have dig: "\<And>c. c < 128 \<Longrightarrow> isdigit c = (48 \<le> c \<and> c \<le> 57)"
    using ascii_digitsD [OF assms] .
  have e1: "normalize_phone_number isdigit (py ''123456789012'') = py ''3456789012''"
    by (simp add: normalize_phone_number_def Let_def startswith_def py_def dig)
  have e2: "normalize_phone_number isdigit (py ''12345'') = py ''0000012345''"
    by (simp add: normalize_phone_number_def Let_def startswith_def py_def dig zfill_def
        replicate_5)
  have e3: "normalize_phone_number isdigit (py ''+91 98765 43210'') = py ''9876543210''"
    by (simp add: normalize_phone_number_def Let_def startswith_def py_def dig)
  from c1 c2 c3 c4 e1 e2 e3 show ?thesis by (intro conjI)
qed

theorem normalize_phone_number_cases_witness:
  "ascii_digits isdigit_ascii
   \<and> normalize_phone_number isdigit_ascii (py ''919876543210'') = py ''9876543210''
   \<and> normalize_phone_number isdigit_ascii (py ''00919876543210'') = py ''9876543210''
   \<and> normalize_phone_number isdigit_ascii (py ''9198765432'') = py ''9198765432''
   \<and> normalize_phone_number isdigit_ascii (py ''98-76'') = py ''0000009876''
   \<and> normalize_phone_number isdigit_ascii (py ''12345'') = py ''0000012345''"
proof -
  have a: "ascii_digits isdigit_ascii" by (rule ascii_digits_ascii)
  have f1: "filter isdigit_ascii (py ''919876543210'') = py ''919876543210''"
    by (simp add: isdigit_ascii_def py_def)
  have f2: "filter isdigit_ascii (py ''00919876543210'') = py ''00919876543210''"
    by (simp add: isdigit_ascii_def py_def)
  have f3: "filter isdigit_ascii (py ''9198765432'') = py ''9198765432''"
    by (simp add: isdigit_ascii_def py_def)
  have f4: "filter isdigit_ascii (py ''98-76'') = py ''9876''"
    by (simp add: isdigit_ascii_def py_def)
  have r6: "replicate 6 x = [x, x, x, x, x, x]" for x :: nat
    by (simp add: numeral_eq_Suc)
  have "normalize_phone_number isdigit_ascii (py ''919876543210'') = py ''9876543210''"
    using normalize_phone_number_cases [OF a, of "py ''919876543210''"]
    unfolding f1 by (simp add: startswith_def py_def)
  moreover
  have "normalize_phone_number isdigit_ascii (py ''00919876543210'') = py ''9876543210''"
    using normalize_phone_number_cases [OF a, of "py ''00919876543210''"]
    unfolding f2 by (simp add: startswith_def py_def)
  moreover
  have "normalize_phone_number isdigit_ascii (py ''9198765432'') = py ''9198765432''"
    using normalize_phone_number_cases [OF a, of "py ''9198765432''"]
    unfolding f3 by (simp add: startswith_def py_def)
  moreover
  have "normalize_phone_number isdigit_ascii (py ''98-76'') = py ''0000009876''"
    using normalize_phone_number_cases [OF a, of "py ''98-76''"]
    unfolding f4 by (simp add: startswith_def py_def r6)
  moreover
  have "normalize_phone_number isdigit_ascii (py ''12345'') = py ''0000012345''"
    using normalize_phone_number_cases [OF a, of "[]"] by blast
  ultimately show ?thesis using a by blast
qed

text \<open>
  C1. The result of the normalizer is claimed to have exactly 10 characters, all digits.
  All its characters are digits (\<open>normalize_phone_number_digits\<close>), but a digit string that
  starts with "91" and has more than 12 characters only loses its first two: thirteen
  digits give eleven.
\<close>

theorem normalize_phone_number_overlong_91:
  "normalize_phone_number isdigit_ascii (py ''9112345678901'') = py ''12345678901''
   \<and> length (normalize_phone_number isdigit_ascii (py ''9112345678901'')) = 11"
  by code_simp

text \<open>
  C2. Normalizing twice is claimed to give what normalizing once gives. On the same
  thirteen digits the first pass leaves eleven characters, and the second pass, which no
  longer sees the prefix "91", keeps the last ten of them.
\<close>

theorem normalize_phone_number_twice_differs:
  "normalize_phone_number isdigit_ascii
     (normalize_phone_number isdigit_ascii (py ''9112345678901'')) = py ''2345678901''
   \<and> normalize_phone_number isdigit_ascii
       (normalize_phone_number isdigit_ascii (py ''9112345678901''))
     \<noteq> normalize_phone_number isdigit_ascii (py ''9112345678901'')"
  by code_simp

section \<open>Properties of the tag normalizer\<close>

lemma ci_Nil [simp]: "ci [] w = (w = [])"
  by (simp add: ci_def)

lemma ci_Cons: "ci (p # ps) w = (\<exists>c cs. w = c # cs \<and> ignorecase p c \<and> ci ps cs)"
  by (auto simp: ci_def list_all2_Cons1)

lemma ci_length: "ci p w \<Longrightarrow> length w = length p"
  by (simp add: ci_def list_all2_lengthD)

lemma strip_ci_Nil [simp]: "strip_ci [] s = Some s"
  by (simp add: strip_ci_def)

lemma strip_ci_Cons_Nil [simp]: "strip_ci (p # ps) [] = None"
  by (simp add: strip_ci_def)

lemma strip_ci_Cons_Cons [simp]:
  "strip_ci (p # ps) (c # cs) = (if ignorecase p c then strip_ci ps cs else None)"
  by (auto simp: strip_ci_def ci_Cons)

lemma matchk_lits: "matchk (lits p) s k = Option.bind (strip_ci p s) k"
proof (induction p arbitrary: s)
  case Nil
  show ?case by simp
next
  case (Cons a p)
  show ?case by (cases s) (simp_all add: Cons.IH)
qed

lemma matchk_star_fail:
  assumes "\<And>c cs. atom_matches a c \<Longrightarrow> k (c # cs) = None"
  shows "matchk (Star a) s k = k (dropWhile (atom_matches a) s)"
  by (induction s) (simp_all add: assms split: option.split)

lemma matchk_star_ok:
  assumes "k (dropWhile (atom_matches a) s) = Some r"
  shows "matchk (Star a) s k = Some r"
  using assms
proof (induction s)
  case Nil
  then show ?case by simp
next
  case (Cons c s)
  show ?case
  proof (cases "atom_matches a c")
    case True
    with Cons.prems have "k (dropWhile (atom_matches a) s) = Some r" by simp
    then have "matchk (Star a) s k = Some r" by (rule Cons.IH)
    with True show ?thesis by simp
  next
    case False
    with Cons.prems show ?thesis by simp
  qed
qed

lemma capture_line:
  assumes "10 \<notin> set s"
  shows "capture s = Some s"
proof -
  have d: "dropWhile (atom_matches Dot) s = []"
    using assms by (induction s) auto
  show ?thesis
    unfolding capture_def by (rule matchk_star_ok) (simp add: d at_end_def)
qed

lemma ignorecase_colon [simp]: "ignorecase CHR '':'' c = (c = 58)"
  by (simp add: ignorecase_def)

lemma ignorecase_lparen [simp]: "ignorecase CHR ''('' c = (c = 40)"
  by (simp add: ignorecase_def)

lemma ignorecase_rparen [simp]: "ignorecase CHR '')'' c = (c = 41)"
  by (simp add: ignorecase_def)

lemma not_isspace_colon [simp]: "\<not> isspace 58"
  by (simp add: isspace_def)

lemma not_isspace_lparen [simp]: "\<not> isspace 40"
  by (simp add: isspace_def)

lemma matchk_star_strip:
  assumes "\<And>c. atom_matches a c \<Longrightarrow> \<not> ignorecase p c"
  shows "matchk (Star a) s (\<lambda>s'. Option.bind (strip_ci (p # ps) s') k)
         = Option.bind (strip_ci (p # ps) (dropWhile (atom_matches a) s)) k"
  by (rule matchk_star_fail) (simp add: assms)

lemma space_then_colon:
  "matchk (Star Space) s (\<lambda>s'. Option.bind (strip_ci (CHR '':'' # ps) s') k)
   = Option.bind (strip_ci (CHR '':'' # ps) (dropWhile isspace s)) k"
proof -
  have a: "atom_matches Space = isspace" by (rule ext) simp
  show ?thesis
    unfolding a [symmetric] by (rule matchk_star_strip) auto
qed

lemma space_then_lparen:
  "matchk (Star Space) s (\<lambda>s'. Option.bind (strip_ci (CHR ''('' # ps) s') k)
   = Option.bind (strip_ci (CHR ''('' # ps) (dropWhile isspace s)) k"
proof -
  have a: "atom_matches Space = isspace" by (rule ext) simp
  show ?thesis
    unfolding a [symmetric] by (rule matchk_star_strip) auto
qed

lemma notrparen_then_rparen:
  "matchk (Star NotRParen) s (\<lambda>s'. Option.bind (strip_ci (CHR '')'' # ps) s') k)
   = Option.bind (strip_ci (CHR '')'' # ps) (dropWhile (\<lambda>c. c \<noteq> 41) s)) k"
proof -
  have a: "atom_matches NotRParen = (\<lambda>c. c \<noteq> 41)" by (rule ext) simp
  show ?thesis
    unfolding a [symmetric] by (rule matchk_star_strip) auto
qed

lemma strip_ci_suffix: "strip_ci p s = Some s' \<Longrightarrow> set s' \<subseteq> set s"
  by (auto simp: strip_ci_def split: if_splits dest: in_set_dropD)

lemma space_then_capture:
  assumes "10 \<notin> set s"
  shows "matchk (Star Space) s capture = Some (dropWhile isspace s)"
proof -
  have a: "atom_matches Space = isspace" by (rule ext) simp
  have "10 \<notin> set (dropWhile isspace s)"
    using assms set_dropWhileD by fastforce
  then have "capture (dropWhile (atom_matches Space) s) = Some (dropWhile isspace s)"
    by (simp add: a capture_line)
  then show ?thesis by (rule matchk_star_ok)
qed

lemma matchk_tail:
  assumes "10 \<notin> set s"
  shows "matchk colon_rx s capture = after_colon s"
proof -
  have "matchk colon_rx s capture
        = Option.bind (strip_ci '':'' (dropWhile isspace s))
            (\<lambda>s'. matchk (Star Space) s' capture)"
    by (simp add: colon_rx_def matchk_lits space_then_colon del: lits.simps)
  also have "\<dots> = after_colon s"
  proof (cases "dropWhile isspace s")
    case Nil
    show ?thesis unfolding after_colon_def Nil by simp
  next
    case (Cons c rest)
    have "set rest \<subseteq> set s"
      using Cons set_dropWhileD [of _ isspace s] by (metis list.set_intros(2) subsetI)
    then have "10 \<notin> set rest" using assms by auto
    then show ?thesis
      unfolding after_colon_def Cons by (simp add: space_then_capture)
  qed
  finally show ?thesis .
qed

lemma matchk_natalie_agent:
  "matchk (Seq (lits ''Natalie'') (Seq (Star Space) (lits ''(Agent)''))) s k
   = Option.bind (natalie_agent s) k"
  by (simp add: natalie_agent_def matchk_lits space_then_lparen del: lits.simps)

lemma matchk_agent_paren:
  "matchk (Seq (lits ''Agent'') (Seq (Star Space)
      (Seq (lits ''('') (Seq (Star NotRParen) (lits '')''))))) s k
   = Option.bind (agent_paren s) k"
  by (simp add: agent_paren_def matchk_lits space_then_lparen notrparen_then_rparen
      del: lits.simps)

lemma natalie_agent_suffix: "natalie_agent s = Some s' \<Longrightarrow> set s' \<subseteq> set s"
  unfolding natalie_agent_def
  by (auto simp: bind_eq_Some_conv dest!: strip_ci_suffix set_dropWhileD)

lemma agent_paren_suffix: "agent_paren s = Some s' \<Longrightarrow> set s' \<subseteq> set s"
  unfolding agent_paren_def
  by (auto simp: bind_eq_Some_conv dest!: strip_ci_suffix set_dropWhileD)

lemma bind_tail:
  assumes "10 \<notin> set l" and "\<And>s'. f l = Some s' \<Longrightarrow> set s' \<subseteq> set l"
  shows "Option.bind (f l) (\<lambda>s'. matchk colon_rx s' capture) = Option.bind (f l) after_colon"
proof (rule Option.bind_cong [OF refl])
  fix s' assume "f l = Some s'"
  then have "10 \<notin> set s'" using assms by blast
  then show "matchk colon_rx s' capture = after_colon s'" by (rule matchk_tail)
qed

lemma seq_alt:
  "matchk (Seq (Alt a b) r) s k = matchk (Alt a b) s (\<lambda>s'. matchk r s' k)"
  by simp

lemma seq_lits:
  "matchk (Seq (lits p) r) s k = Option.bind (strip_ci p s) (\<lambda>s'. matchk r s' k)"
  by (simp add: matchk_lits del: lits.simps)

lemma group1_agent:
  assumes "10 \<notin> set l"
  shows "group1 agent_pattern l = agent_group l"
proof -
  let ?K = "\<lambda>s'. matchk colon_rx s' capture"
  have g: "group1 agent_pattern l =
     (case Option.bind (natalie_agent l) ?K of
        Some r \<Rightarrow> Some r
      | None \<Rightarrow>
     (case Option.bind (agent_paren l) ?K of
        Some r \<Rightarrow> Some r
      | None \<Rightarrow>
     (case Option.bind (strip_ci ''Natalie'' l) ?K of
        Some r \<Rightarrow> Some r
      | None \<Rightarrow> Option.bind (strip_ci ''Agent'' l) ?K)))"
    unfolding group1_def agent_pattern_def
    by (simp only: seq_alt matchk.simps(7) matchk_natalie_agent matchk_agent_paren
        matchk_lits)
  have b1: "Option.bind (natalie_agent l) ?K = Option.bind (natalie_agent l) after_colon"
    by (rule bind_tail [OF assms natalie_agent_suffix])
  have b2: "Option.bind (agent_paren l) ?K = Option.bind (agent_paren l) after_colon"
    by (rule bind_tail [OF assms agent_paren_suffix])
  have b3: "Option.bind (strip_ci p l) ?K = Option.bind (strip_ci p l) after_colon" for p
    by (rule bind_tail [OF assms strip_ci_suffix])
  show ?thesis
    unfolding g agent_group_def b1 b2 b3 ..
qed

lemma group1_user:
  assumes "10 \<notin> set l"
  shows "group1 user_pattern l = user_group l"
proof -
  let ?K = "\<lambda>s'. matchk colon_rx s' capture"
  have g: "group1 user_pattern l = Option.bind (strip_ci ''User'' l) ?K"
    unfolding group1_def user_pattern_def
    by (simp only: seq_lits)
  have b: "Option.bind (strip_ci ''User'' l) ?K = Option.bind (strip_ci ''User'' l) after_colon"
    by (rule bind_tail [OF assms strip_ci_suffix])
  show ?thesis
    unfolding g user_group_def b ..
qed

lemma strip_ci_append:
  assumes "ci p w"
  shows "strip_ci p (w @ x) = Some x"
  using assms by (simp add: strip_ci_def ci_length)

lemma strip_ci_SomeD:
  assumes "strip_ci p s = Some s'"
  shows "\<exists>w. s = w @ s' \<and> ci p w"
proof -
  from assms have "ci p (take (length p) s)" and "s' = drop (length p) s"
    by (auto simp: strip_ci_def split: if_splits)
  then have "s = take (length p) s @ s' \<and> ci p (take (length p) s)" by simp
  then show ?thesis by blast
qed

lemma dropWhile_spaces:
  assumes "spaces ws" and "x = [] \<or> \<not> isspace (hd x)"
  shows "dropWhile isspace (ws @ x) = x"
proof -
  have "dropWhile isspace (ws @ x) = dropWhile isspace x"
    using assms(1) by (simp add: spaces_def dropWhile_append2)
  also have "\<dots> = x" using assms(2) by (cases x) auto
  finally show ?thesis .
qed

lemma dropWhile_spacesD:
  "\<exists>ws. s = ws @ dropWhile isspace s \<and> spaces ws"
proof -
  have "s = takeWhile isspace s @ dropWhile isspace s" by simp
  moreover have "spaces (takeWhile isspace s)"
    by (auto simp: spaces_def dest: set_takeWhileD)
  ultimately show ?thesis by blast
qed

lemma after_colon_I:
  assumes "spaces ws"
  shows "after_colon (ws @ 58 # rest) = Some (dropWhile isspace rest)"
proof -
  have "dropWhile isspace (ws @ 58 # rest) = 58 # rest"
    by (rule dropWhile_spaces [OF assms]) simp
  then show ?thesis by (simp add: after_colon_def)
qed

lemma after_colon_D:
  assumes "after_colon s = Some r"
  shows "\<exists>ws rest. s = ws @ 58 # rest \<and> spaces ws \<and> r = dropWhile isspace rest"
proof -
  obtain ws where ws: "s = ws @ dropWhile isspace s" "spaces ws"
    using dropWhile_spacesD by blast
  from assms obtain rest where "dropWhile isspace s = 58 # rest" "r = dropWhile isspace rest"
    by (auto simp: after_colon_def split: list.splits if_splits)
  with ws show ?thesis by metis
qed

lemma user_group_I:
  assumes "user_line l rest"
  shows "user_group l = Some (dropWhile isspace rest)"
proof -
  from assms obtain tag ws where l: "l = tag @ ws @ 58 # rest" and t: "ci ''User'' tag"
    and w: "spaces ws"
    by (auto simp: user_line_def)
  show ?thesis
    unfolding user_group_def l by (simp add: strip_ci_append [OF t] after_colon_I [OF w])
qed

lemma user_group_D:
  assumes "user_group l = Some r"
  shows "\<exists>rest. user_line l rest \<and> r = dropWhile isspace rest"
proof -
  from assms obtain s where s: "strip_ci ''User'' l = Some s" and a: "after_colon s = Some r"
    by (auto simp: user_group_def bind_eq_Some_conv)
  from strip_ci_SomeD [OF s] obtain tag where "l = tag @ s" "ci ''User'' tag" by blast
  moreover from after_colon_D [OF a] obtain ws rest where
    "s = ws @ 58 # rest" "spaces ws" "r = dropWhile isspace rest" by blast
  ultimately show ?thesis unfolding user_line_def by blast
qed

lemma ignorecase_A: "ignorecase CHR ''A'' c = (c = 65 \<or> c = 97)"
  by (auto simp: ignorecase_def)

lemma ignorecase_N: "ignorecase CHR ''N'' c = (c = 78 \<or> c = 110)"
  by (auto simp: ignorecase_def)

lemma ignorecase_U: "ignorecase CHR ''U'' c = (c = 85 \<or> c = 117)"
  by (auto simp: ignorecase_def)

lemma ci_agent_not_natalie:
  assumes "ci ''Agent'' a"
  shows "strip_ci ''Natalie'' (a @ x) = None"
proof -
  from assms obtain c cs where "a = c # cs" "ignorecase CHR ''A'' c"
    by (auto simp: ci_Cons)
  then show ?thesis by (auto simp: ignorecase_A ignorecase_N)
qed

lemma ci_natalie_not_agent:
  assumes "ci ''Natalie'' n"
  shows "strip_ci ''Agent'' (n @ x) = None"
proof -
  from assms obtain c cs where "n = c # cs" "ignorecase CHR ''N'' c"
    by (auto simp: ci_Cons)
  then show ?thesis by (auto simp: ignorecase_A ignorecase_N)
qed

lemma ci_lparen: "ci ''('' p = (p = [40])"
  by (auto simp: ci_Cons)

lemma ci_rparen: "ci '')'' p = (p = [41])"
  by (auto simp: ci_Cons)

lemma ci_paren_agent_hd:
  assumes "ci ''(Agent)'' a"
  shows "\<exists>cs. a = 40 # cs"
  using assms by (auto simp: ci_Cons)

lemma natalie_agent_I:
  assumes "ci ''Natalie'' n" and "spaces ws" and "ci ''(Agent)'' a"
  shows "natalie_agent (n @ ws @ a @ x) = Some x"
proof -
  from ci_paren_agent_hd [OF assms(3)] obtain cs where a: "a = 40 # cs" by blast
  have "dropWhile isspace (ws @ a @ x) = a @ x"
    by (rule dropWhile_spaces [OF assms(2)]) (simp add: a)
  then show ?thesis
    unfolding natalie_agent_def
    by (simp add: strip_ci_append [OF assms(1)] strip_ci_append [OF assms(3)]
        del: strip_ci_Cons_Cons)
qed

lemma natalie_agent_D:
  assumes "natalie_agent l = Some s"
  shows "\<exists>n ws a. l = n @ ws @ a @ s \<and> ci ''Natalie'' n \<and> spaces ws \<and> ci ''(Agent)'' a"
proof -
  from assms obtain s1 where s1: "strip_ci ''Natalie'' l = Some s1"
    and s2: "strip_ci ''(Agent)'' (dropWhile isspace s1) = Some s"
    by (auto simp: natalie_agent_def bind_eq_Some_conv)
  from strip_ci_SomeD [OF s1] obtain n where n: "l = n @ s1" "ci ''Natalie'' n" by blast
  from dropWhile_spacesD [of s1] obtain ws where
    ws: "s1 = ws @ dropWhile isspace s1" "spaces ws" by blast
  from strip_ci_SomeD [OF s2] obtain a where
    a: "dropWhile isspace s1 = a @ s" "ci ''(Agent)'' a" by blast
  have "l = n @ ws @ a @ s" using n(1) ws(1) a(1) by metis
  with n(2) ws(2) a(2) show ?thesis by blast
qed

lemma dropWhile_not_rparen:
  assumes "41 \<notin> set inner"
  shows "dropWhile (\<lambda>c. c \<noteq> 41) (inner @ 41 # x) = 41 # x"
  using assms by (induction inner) auto

lemma agent_paren_I:
  assumes "ci ''Agent'' a" and "spaces ws" and "41 \<notin> set inner"
  shows "agent_paren (a @ ws @ 40 # inner @ 41 # x) = Some x"
proof -
  have d: "dropWhile isspace (ws @ 40 # inner @ 41 # x) = 40 # inner @ 41 # x"
    by (rule dropWhile_spaces [OF assms(2)]) simp
  show ?thesis
    unfolding agent_paren_def
    by (simp add: strip_ci_append [OF assms(1)] d dropWhile_not_rparen [OF assms(3)])
qed

lemma agent_paren_D:
  assumes "agent_paren l = Some s"
  shows "\<exists>a ws inner. l = a @ ws @ 40 # inner @ 41 # s \<and> ci ''Agent'' a \<and> spaces ws
           \<and> 41 \<notin> set inner"
proof -
  from assms obtain s1 s2 where s1: "strip_ci ''Agent'' l = Some s1"
    and s2: "strip_ci ''('' (dropWhile isspace s1) = Some s2"
    and s3: "strip_ci '')'' (dropWhile (\<lambda>c. c \<noteq> 41) s2) = Some s"
    by (auto simp: agent_paren_def bind_eq_Some_conv)
  from strip_ci_SomeD [OF s1] obtain a where a: "l = a @ s1" "ci ''Agent'' a" by blast
  from dropWhile_spacesD [of s1] obtain ws where
    ws: "s1 = ws @ dropWhile isspace s1" "spaces ws" by blast
  from strip_ci_SomeD [OF s2] have p: "dropWhile isspace s1 = 40 # s2"
    by (auto simp: ci_lparen)
  from strip_ci_SomeD [OF s3] have q: "dropWhile (\<lambda>c. c \<noteq> 41) s2 = 41 # s"
    by (auto simp: ci_rparen)
  let ?inner = "takeWhile (\<lambda>c. c \<noteq> 41) s2"
  have i: "s2 = ?inner @ 41 # s" using q by (metis takeWhile_dropWhile_id)
  have ni: "41 \<notin> set ?inner" by (auto dest: set_takeWhileD)
  have "l = a @ ws @ 40 # ?inner @ 41 # s" using a(1) ws(1) p i by metis
  with a(2) ws(2) ni show ?thesis by blast
qed

lemma agent_group_I:
  assumes "agent_line l rest"
  shows "agent_group l = Some (dropWhile isspace rest)"
proof -
  from assms obtain tag ws where l: "l = tag @ ws @ 58 # rest" and t: "agent_tag tag"
    and w: "spaces ws"
    by (auto simp: agent_line_def)
  let ?X = "ws @ 58 # rest"
  have ac: "after_colon ?X = Some (dropWhile isspace rest)" by (rule after_colon_I [OF w])
  have dw: "dropWhile isspace ?X = 58 # rest"
    by (rule dropWhile_spaces [OF w]) simp
  from t consider
      (f1) n ws' a where "tag = n @ ws' @ a" "ci ''Natalie'' n" "spaces ws'" "ci ''(Agent)'' a"
    | (f2) a ws' inner where "tag = a @ ws' @ 40 # inner @ [41]" "ci ''Agent'' a" "spaces ws'"
        "41 \<notin> set inner"
    | (f3) "ci ''Natalie'' tag"
    | (f4) "ci ''Agent'' tag"
    unfolding agent_tag_def by blast
  then show ?thesis
  proof cases
    case f1
    have "natalie_agent l = Some ?X"
      unfolding l f1(1) using natalie_agent_I [OF f1(2,3,4), of ?X] by simp
    then show ?thesis by (simp add: agent_group_def ac)
  next
    case f2
    have l2: "l = a @ ws' @ 40 # inner @ 41 # ?X" unfolding l f2(1) by simp
    have "natalie_agent l = None"
      unfolding natalie_agent_def l2 by (simp add: ci_agent_not_natalie [OF f2(2)])
    moreover have "agent_paren l = Some ?X"
      unfolding l2 by (rule agent_paren_I [OF f2(2,3,4)])
    ultimately show ?thesis by (simp add: agent_group_def ac)
  next
    case f3
    have "natalie_agent l = None"
      unfolding natalie_agent_def l by (simp add: strip_ci_append [OF f3] dw)
    moreover have "agent_paren l = None"
      unfolding agent_paren_def l by (simp add: ci_natalie_not_agent [OF f3])
    moreover have "strip_ci ''Natalie'' l = Some ?X"
      unfolding l by (rule strip_ci_append [OF f3])
    ultimately show ?thesis by (simp add: agent_group_def ac)
  next
    case f4
    have "natalie_agent l = None"
      unfolding natalie_agent_def l by (simp add: ci_agent_not_natalie [OF f4])
    moreover have "agent_paren l = None"
      unfolding agent_paren_def l by (simp add: strip_ci_append [OF f4] dw)
    moreover have "strip_ci ''Natalie'' l = None"
      unfolding l by (rule ci_agent_not_natalie [OF f4])
    moreover have "strip_ci ''Agent'' l = Some ?X"
      unfolding l by (rule strip_ci_append [OF f4])
    ultimately show ?thesis by (simp add: agent_group_def ac)
  qed
qed

lemma agent_group_D:
  assumes "agent_group l = Some r"
  shows "\<exists>rest. agent_line l rest \<and> r = dropWhile isspace rest"
proof -
  from assms obtain s where a: "after_colon s = Some r"
    and alt: "natalie_agent l = Some s \<or> agent_paren l = Some s
              \<or> strip_ci ''Natalie'' l = Some s \<or> strip_ci ''Agent'' l = Some s"
    unfolding agent_group_def
    by (auto simp: bind_eq_Some_conv split: option.splits)
  have "\<exists>tag. l = tag @ s \<and> agent_tag tag"
    using alt
  proof (elim disjE)
    assume "natalie_agent l = Some s"
    from natalie_agent_D [OF this] obtain n ws a where
      "l = (n @ ws @ a) @ s" "ci ''Natalie'' n" "spaces ws" "ci ''(Agent)'' a" by auto
    then show ?thesis unfolding agent_tag_def by blast
  next
    assume "agent_paren l = Some s"
    from agent_paren_D [OF this] obtain a ws inner where
      "l = (a @ ws @ 40 # inner @ [41]) @ s" "ci ''Agent'' a" "spaces ws" "41 \<notin> set inner"
      by auto
    then show ?thesis unfolding agent_tag_def by blast
  next
    assume "strip_ci ''Natalie'' l = Some s"
    from strip_ci_SomeD [OF this] show ?thesis unfolding agent_tag_def by blast
  next
    assume "strip_ci ''Agent'' l = Some s"
    from strip_ci_SomeD [OF this] show ?thesis unfolding agent_tag_def by blast
  qed
  then obtain tag where "l = tag @ s" "agent_tag tag" by blast
  moreover from after_colon_D [OF a] obtain ws rest where
    "s = ws @ 58 # rest" "spaces ws" "r = dropWhile isspace rest" by blast
  ultimately show ?thesis unfolding agent_line_def by blast
qed

lemma agent_group_None: "agent_group l = None \<longleftrightarrow> (\<forall>rest. \<not> agent_line l rest)"
  using agent_group_I agent_group_D by (metis not_Some_eq option.distinct(1))

lemma user_group_None: "user_group l = None \<longleftrightarrow> (\<forall>rest. \<not> user_line l rest)"
  using user_group_I user_group_D by (metis not_Some_eq option.distinct(1))

lemma split_nl_nonempty: "split_nl s \<noteq> []"
  by (induction s) (auto split: list.splits)

lemma split_nl_lines: "l \<in> set (split_nl s) \<Longrightarrow> 10 \<notin> set l"
proof (induction s arbitrary: l)
  case Nil
  then show ?case by simp
next
  case (Cons c s)
  show ?case
  proof (cases "c = 10")
    case True
    with Cons show ?thesis by auto
  next
    case False
    obtain h t where ht: "split_nl s = h # t"
      using split_nl_nonempty [of s] by (cases "split_nl s") auto
    with False Cons.prems have "l = c # h \<or> l \<in> set t" by simp
    moreover have "10 \<notin> set h" using Cons.IH [of h] ht by simp
    moreover have "l \<in> set t \<Longrightarrow> 10 \<notin> set l" using Cons.IH [of l] ht by simp
    ultimately show ?thesis using False by auto
  qed
qed

lemma split_nl_line:
  assumes "10 \<notin> set l"
  shows "split_nl l = [l]"
  using assms by (induction l) auto

lemma split_nl_append:
  assumes "10 \<notin> set l"
  shows "split_nl (l @ 10 # x) = l # split_nl x"
  using assms by (induction l) auto

lemma split_join:
  assumes "ls \<noteq> []" and "\<forall>l\<in>set ls. 10 \<notin> set l"
  shows "split_nl (join_nl ls) = ls"
  using assms
proof (induction ls rule: join_nl.induct)
  case 1
  then show ?case by simp
next
  case (2 l)
  then show ?case by (simp add: split_nl_line)
next
  case (3 l v va)
  then show ?case by (simp add: split_nl_append)
qed

lemma tags_loop_map: "tags_loop ls acc = acc @ map normalize_line ls"
  by (induction ls arbitrary: acc) auto

lemma normalize_conversation_tags_map:
  "normalize_conversation_tags x = join_nl (map normalize_line (split_nl x))"
  by (simp add: normalize_conversation_tags_def tags_loop_map)

lemma normalize_line_groups:
  assumes "10 \<notin> set l"
  shows "normalize_line l =
     (case agent_group l of
        Some g \<Rightarrow> py ''Agent: '' @ g
      | None \<Rightarrow> (case user_group l of Some g \<Rightarrow> py ''User: '' @ g | None \<Rightarrow> l))"
  unfolding normalize_line_def group1_agent [OF assms] group1_user [OF assms] ..

lemma agent_line_set: "agent_line l rest \<Longrightarrow> set rest \<subseteq> set l"
  by (auto simp: agent_line_def)

lemma user_line_set: "user_line l rest \<Longrightarrow> set rest \<subseteq> set l"
  by (auto simp: user_line_def)

lemma py_agent: "py ''Agent: '' = [65, 103, 101, 110, 116, 58, 32]"
  by (simp add: py_def)

lemma py_user: "py ''User: '' = [85, 115, 101, 114, 58, 32]"
  by (simp add: py_def)

lemma isspace_32: "isspace 32"
  by (simp add: isspace_def)

lemma agent_canonical:
  "agent_group (py ''Agent: '' @ dropWhile isspace rest) = Some (dropWhile isspace rest)"
proof -
  let ?g = "dropWhile isspace rest"
  have c: "ci ''Agent'' [65, 103, 101, 110, 116]"
    by (simp add: ci_Cons ignorecase_def)
  have "agent_line (py ''Agent: '' @ ?g) (32 # ?g)"
    unfolding agent_line_def agent_tag_def py_agent
    by (rule exI [of _ "[65, 103, 101, 110, 116]"], rule exI [of _ "[]"])
       (simp add: c spaces_def)
  from agent_group_I [OF this] show ?thesis
    by (simp add: isspace_32 dropWhile_idem)
qed

lemma user_canonical:
  "agent_group (py ''User: '' @ g) = None
   \<and> user_group (py ''User: '' @ dropWhile isspace rest) = Some (dropWhile isspace rest)"
proof -
  let ?g = "dropWhile isspace rest"
  have c: "ci ''User'' [85, 115, 101, 114]"
    by (simp add: ci_Cons ignorecase_def)
  have "user_line (py ''User: '' @ ?g) (32 # ?g)"
    unfolding user_line_def py_user
    by (rule exI [of _ "[85, 115, 101, 114]"], rule exI [of _ "[]"])
       (simp add: c spaces_def)
  from user_group_I [OF this] have "user_group (py ''User: '' @ ?g) = Some ?g"
    by (simp add: isspace_32 dropWhile_idem)
  moreover have "agent_group (py ''User: '' @ g) = None"
    by (simp add: agent_group_def natalie_agent_def agent_paren_def py_user ignorecase_N
        ignorecase_A)
  ultimately show ?thesis by simp
qed

lemma normalize_line_no_newline:
  assumes "10 \<notin> set l"
  shows "10 \<notin> set (normalize_line l)"
proof -
  have a: "agent_group l = Some g \<Longrightarrow> 10 \<notin> set g" for g
    using agent_group_D [of l g] agent_line_set assms set_dropWhileD by fastforce
  have u: "user_group l = Some g \<Longrightarrow> 10 \<notin> set g" for g
    using user_group_D [of l g] user_line_set assms set_dropWhileD by fastforce
  show ?thesis
    unfolding normalize_line_groups [OF assms]
    using a u assms by (auto simp: py_agent py_user split: option.splits)
qed

lemma normalize_line_idem:
  assumes "10 \<notin> set l"
  shows "normalize_line (normalize_line l) = normalize_line l"
proof (cases "agent_group l")
  case (Some g)
  from agent_group_D [OF Some] obtain rest where g: "g = dropWhile isspace rest" by blast
  have n: "normalize_line l = py ''Agent: '' @ g"
    by (simp add: normalize_line_groups [OF assms] Some)
  have "10 \<notin> set (py ''Agent: '' @ g)"
    using normalize_line_no_newline [OF assms] n by simp
  from normalize_line_groups [OF this] show ?thesis
    unfolding n by (simp add: g agent_canonical)
next
  case None
  show ?thesis
  proof (cases "user_group l")
    case (Some g)
    from user_group_D [OF Some] obtain rest where g: "g = dropWhile isspace rest" by blast
    have n: "normalize_line l = py ''User: '' @ g"
      by (simp add: normalize_line_groups [OF assms] None Some)
    have "10 \<notin> set (py ''User: '' @ g)"
      using normalize_line_no_newline [OF assms] n by simp
    from normalize_line_groups [OF this] show ?thesis
      unfolding n by (simp add: g user_canonical)
  next
    case N2: None
    have "normalize_line l = l"
      by (simp add: normalize_line_groups [OF assms] None N2)
    then show ?thesis by simp
  qed
qed

lemma split_normalize:
  "split_nl (normalize_conversation_tags x) = map normalize_line (split_nl x)"
proof -
  have "map normalize_line (split_nl x) \<noteq> []"
    by (simp add: split_nl_nonempty)
  moreover have "\<forall>l\<in>set (map normalize_line (split_nl x)). 10 \<notin> set l"
  proof
    fix l assume "l \<in> set (map normalize_line (split_nl x))"
    then obtain l0 where "l0 \<in> set (split_nl x)" "l = normalize_line l0" by auto
    then show "10 \<notin> set l"
      using normalize_line_no_newline [OF split_nl_lines] by blast
  qed
  ultimately show ?thesis
    unfolding normalize_conversation_tags_map by (rule split_join)
qed

lemma ci_refl_Agent: "ci ''Agent'' (py ''Agent'')"
  by (simp add: ci_Cons ignorecase_def py_def)

lemma normalize_line_agent:
  assumes "10 \<notin> set l" and "agent_line l rest"
  shows "normalize_line l = py ''Agent: '' @ dropWhile isspace rest"
  by (simp add: normalize_line_groups [OF assms(1)] agent_group_I [OF assms(2)])

lemma normalize_line_user:
  assumes "10 \<notin> set l" and "\<forall>r. \<not> agent_line l r" and "user_line l rest"
  shows "normalize_line l = py ''User: '' @ dropWhile isspace rest"
proof -
  have "agent_group l = None" using assms(2) by (simp add: agent_group_None)
  then show ?thesis
    by (simp add: normalize_line_groups [OF assms(1)] user_group_I [OF assms(3)])
qed

lemma normalize_line_other:
  assumes "10 \<notin> set l" and "\<forall>r. \<not> agent_line l r" and "\<forall>r. \<not> user_line l r"
  shows "normalize_line l = l"
proof -
  have "agent_group l = None" using assms(2) by (simp add: agent_group_None)
  moreover have "user_group l = None" using assms(3) by (simp add: user_group_None)
  ultimately show ?thesis by (simp add: normalize_line_groups [OF assms(1)])
qed

lemma example_tags:
  "normalize_conversation_tags (py ''Natalie (Agent): Hello'' @ 10 # py ''User: Hi'')
   = py ''Agent: Hello'' @ 10 # py ''User: Hi''"
  by (simp add: normalize_conversation_tags_def normalize_line_def group1_def capture_def
      agent_pattern_def user_pattern_def colon_rx_def py_def ignorecase_def isspace_def
      at_end_def)

text \<open>
  C8. The normalizer works line by line and keeps no state between lines: its result is
  the lines of the input, each rewritten on its own by \<open>normalize_line\<close>, joined by
  newlines. A line that has the shape of an agent line (one of the four tags, compared
  without case, optional whitespace, a colon) becomes \<^verbatim>\<open>Agent: \<close> followed by the
  remainder, which is the text after the colon without its leading whitespace; a line that
  is no agent line and has the shape of a user line becomes \<^verbatim>\<open>User: \<close> followed by the
  remainder; every other line is left as it is. The example of the specification
  evaluates as it says.
\<close>

theorem normalize_conversation_tags_lines:
  "normalize_conversation_tags x = join_nl (map normalize_line (split_nl x))
   \<and> (\<forall>l\<in>set (split_nl x). \<forall>rest.
         (agent_line l rest \<longrightarrow>
            normalize_line l = py ''Agent: '' @ dropWhile isspace rest)
       \<and> ((\<forall>r. \<not> agent_line l r) \<and> user_line l rest \<longrightarrow>
            normalize_line l = py ''User: '' @ dropWhile isspace rest)
       \<and> ((\<forall>r. \<not> agent_line l r) \<and> (\<forall>r. \<not> user_line l r) \<longrightarrow>
            normalize_line l = l))
   \<and> normalize_conversation_tags (py ''Natalie (Agent): Hello'' @ 10 # py ''User: Hi'')
       = py ''Agent: Hello'' @ 10 # py ''User: Hi''"
proof (intro conjI ballI allI impI)
  show "normalize_conversation_tags x = join_nl (map normalize_line (split_nl x))"
    by (rule normalize_conversation_tags_map)
next
  fix l rest assume "l \<in> set (split_nl x)" and "agent_line l rest"
  then show "normalize_line l = py ''Agent: '' @ dropWhile isspace rest"
    using normalize_line_agent split_nl_lines by blast
next
  fix l rest assume "l \<in> set (split_nl x)"
    and "(\<forall>r. \<not> agent_line l r) \<and> user_line l rest"
  then show "normalize_line l = py ''User: '' @ dropWhile isspace rest"
    using normalize_line_user split_nl_lines by blast
next
  fix l rest assume "l \<in> set (split_nl x)"
    and "(\<forall>r. \<not> agent_line l r) \<and> (\<forall>r. \<not> user_line l r)"
  then show "normalize_line l = l"
    using normalize_line_other split_nl_lines by blast
next
  show "normalize_conversation_tags (py ''Natalie (Agent): Hello'' @ 10 # py ''User: Hi'')
       = py ''Agent: Hello'' @ 10 # py ''User: Hi''"
    by (rule example_tags)
qed

theorem normalize_conversation_tags_lines_witness:
  "agent_line (py ''agent (sales):  Hello'') (py ''  Hello'')
   \<and> normalize_line (py ''agent (sales):  Hello'') = py ''Agent: Hello''
   \<and> (\<forall>r. \<not> agent_line (py ''USER : Hi'') r)
   \<and> user_line (py ''USER : Hi'') (py '' Hi'')
   \<and> normalize_line (py ''USER : Hi'') = py ''User: Hi''
   \<and> (\<forall>r. \<not> agent_line (py ''(call ends)'') r)
   \<and> (\<forall>r. \<not> user_line (py ''(call ends)'') r)
   \<and> normalize_line (py ''(call ends)'') = py ''(call ends)''"
proof -
  let ?l1 = "py ''agent (sales):  Hello''"
  let ?l2 = "py ''USER : Hi''"
  let ?l3 = "py ''(call ends)''"
  let ?x = "?l1 @ 10 # ?l2 @ 10 # ?l3"
  have s: "split_nl ?x = [?l1, ?l2, ?l3]"
    by (simp add: py_def)
  have a1: "agent_line ?l1 (py ''  Hello'')"
    unfolding agent_line_def agent_tag_def
    apply (rule exI [of _ "py ''agent (sales)''"])
    apply (rule exI [of _ "[]"])
    apply (intro conjI)
      apply (simp add: py_def)
     apply (rule disjI2, rule disjI1)
     apply (rule exI [of _ "py ''agent''"])
     apply (rule exI [of _ "[32]"])
     apply (rule exI [of _ "py ''sales''"])
     apply (simp add: py_def ci_Cons ignorecase_def spaces_def isspace_def)
    apply (simp add: spaces_def)
    done
  have n2: "\<forall>r. \<not> agent_line ?l2 r"
    unfolding agent_group_None [symmetric]
    by (simp add: agent_group_def natalie_agent_def agent_paren_def py_def ignorecase_def)
  have u2: "user_line ?l2 (py '' Hi'')"
    unfolding user_line_def
    apply (rule exI [of _ "py ''USER''"])
    apply (rule exI [of _ "[32]"])
    apply (simp add: py_def ci_Cons ignorecase_def spaces_def isspace_def)
    done
  have n3: "\<forall>r. \<not> agent_line ?l3 r"
    unfolding agent_group_None [symmetric]
    by (simp add: agent_group_def natalie_agent_def agent_paren_def py_def ignorecase_def)
  have v3: "\<forall>r. \<not> user_line ?l3 r"
    unfolding user_group_None [symmetric]
    by (simp add: user_group_def py_def ignorecase_def)
  have d1: "dropWhile isspace (py ''  Hello'') = py ''Hello''"
    by (simp add: py_def isspace_def)
  have d2: "dropWhile isspace (py '' Hi'') = py ''Hi''"
    by (simp add: py_def isspace_def)
  have app1: "py ''Agent: '' @ py ''Hello'' = py ''Agent: Hello''"
    by (simp add: py_def)
  have app2: "py ''User: '' @ py ''Hi'' = py ''User: Hi''"
    by (simp add: py_def)
  from normalize_conversation_tags_lines [of ?x]
  have all: "\<forall>l\<in>set [?l1, ?l2, ?l3]. \<forall>rest.
         (agent_line l rest \<longrightarrow>
            normalize_line l = py ''Agent: '' @ dropWhile isspace rest)
       \<and> ((\<forall>r. \<not> agent_line l r) \<and> user_line l rest \<longrightarrow>
            normalize_line l = py ''User: '' @ dropWhile isspace rest)
       \<and> ((\<forall>r. \<not> agent_line l r) \<and> (\<forall>r. \<not> user_line l r) \<longrightarrow>
            normalize_line l = l)"
    unfolding s by blast
  have r1: "normalize_line ?l1 = py ''Agent: Hello''"
    using all a1 d1 app1 by (metis list.set_intros(1))
  have r2: "normalize_line ?l2 = py ''User: Hi''"
    using all n2 u2 d2 app2 by (metis list.set_intros(1) list.set_intros(2))
  have r3: "normalize_line ?l3 = ?l3"
    using all n3 v3 by (metis list.set_intros(1) list.set_intros(2))
  from a1 r1 n2 u2 r2 n3 v3 r3 show ?thesis by (intro conjI)
qed

text \<open>
  C9. Normalizing a conversation that has been normalized changes nothing. This holds
  for every input, so in particular for the inputs whose tagged lines already carry one
  of the two canonical tags: a rewritten line starts with a canonical tag, one space and a
  remainder without leading whitespace, and such a line is rewritten to itself.
\<close>

theorem normalize_conversation_tags_twice:
  "normalize_conversation_tags (normalize_conversation_tags x)
     = normalize_conversation_tags x"
proof -
  have m: "map normalize_line (map normalize_line (split_nl x))
           = map normalize_line (split_nl x)"
    using split_nl_lines normalize_line_idem by auto
  have "normalize_conversation_tags (normalize_conversation_tags x)
        = join_nl (map normalize_line (split_nl (normalize_conversation_tags x)))"
    by (rule normalize_conversation_tags_map)
  also have "\<dots> = join_nl (map normalize_line (split_nl x))"
    unfolding split_normalize m ..
  also have "\<dots> = normalize_conversation_tags x"
    by (rule normalize_conversation_tags_map [symmetric])
  finally show ?thesis .
qed

text \<open>
  C10. The normalizer keeps the line structure: its output, split on newlines, has as
  many lines as its input, and a line on which neither pattern matches (a blank line
  among them) stands unchanged at the same position.
\<close>

theorem normalize_conversation_tags_line_structure:
  "length (split_nl (normalize_conversation_tags x)) = length (split_nl x)
   \<and> (\<forall>i<length (split_nl x).
         group1 agent_pattern (split_nl x ! i) = None
         \<and> group1 user_pattern (split_nl x ! i) = None \<longrightarrow>
         split_nl (normalize_conversation_tags x) ! i = split_nl x ! i)"
  by (simp add: split_normalize normalize_line_def)

theorem normalize_conversation_tags_line_structure_witness:
  "length (split_nl (normalize_conversation_tags (py ''Agent : hi'' @ 10 # 10 # py ''ok''))) = 3
   \<and> group1 agent_pattern [] = None \<and> group1 user_pattern [] = None
   \<and> split_nl (normalize_conversation_tags (py ''Agent : hi'' @ 10 # 10 # py ''ok'')) ! 1 = []
   \<and> group1 agent_pattern (py ''ok'') = None \<and> group1 user_pattern (py ''ok'') = None
   \<and> split_nl (normalize_conversation_tags (py ''Agent : hi'' @ 10 # 10 # py ''ok'')) ! 2
       = py ''ok''"
proof -
  let ?x = "py ''Agent : hi'' @ 10 # 10 # py ''ok''"
  have s: "split_nl ?x = [py ''Agent : hi'', [], py ''ok'']"
    by (simp add: py_def)
  have g1: "group1 agent_pattern [] = None" "group1 user_pattern [] = None"
    by (simp_all add: group1_def agent_pattern_def user_pattern_def colon_rx_def)
  have g2: "group1 agent_pattern (py ''ok'') = None" "group1 user_pattern (py ''ok'') = None"
    by (simp_all add: group1_def agent_pattern_def user_pattern_def colon_rx_def py_def
        ignorecase_def)
  from normalize_conversation_tags_line_structure [of ?x]
  have len: "length (split_nl (normalize_conversation_tags ?x)) = 3"
    and nth: "\<forall>i<3. group1 agent_pattern ([py ''Agent : hi'', [], py ''ok''] ! i) = None
         \<and> group1 user_pattern ([py ''Agent : hi'', [], py ''ok''] ! i) = None \<longrightarrow>
         split_nl (normalize_conversation_tags ?x) ! i = [py ''Agent : hi'', [], py ''ok''] ! i"
    unfolding s by simp_all
  from nth [rule_format, of 1] g1
  have r1: "split_nl (normalize_conversation_tags ?x) ! 1 = []" by simp
  from nth [rule_format, of 2] g2
  have r2: "split_nl (normalize_conversation_tags ?x) ! 2 = py ''ok''" by simp
  from len g1 r1 g2 r2 show ?thesis by (intro conjI)
qed

end
